theory Spec2Isabelle
  imports Main "HOL-Library.Sublist" "HOL-Library.Char_ord" "HOL-Library.List_Lexorder"
    "HOL-Library.Multiset"
begin

section \<open>Text values\<close>

text \<open>
  The notebook works on Python \<^verbatim>\<open>str\<close> values.  They are modelled as \<^typ>\<open>string\<close>, each
  \<^typ>\<open>char\<close> standing for one code point below 256.  The distance metric
  \<^verbatim>\<open>textdistance.damerau_levenshtein\<close> is a library function; every definition that calls
  it takes it as the parameter \<open>metric\<close>, a function from two strings to a Python \<^verbatim>\<open>int\<close>.
\<close>

type_synonym metric = "string \<Rightarrow> string \<Rightarrow> int"

text \<open>The dictionary key \<^verbatim>\<open>f"{s1} _and_ {s2}"\<close> (lines 31 and 94).\<close>

definition pair_key :: "string \<Rightarrow> string \<Rightarrow> string" where
  "pair_key s1 s2 = s1 @ '' _and_ '' @ s2"

text \<open>The pattern handed to \<^verbatim>\<open>str.split\<close> on line 42.\<close>

definition pat_and :: string where
  "pat_and = ''_and_''"

text \<open>Python's \<^verbatim>\<open>pat in s\<close>: some suffix of \<open>s\<close> starts with \<open>pat\<close>.\<close>

fun contains :: "string \<Rightarrow> string \<Rightarrow> bool" where
  "contains pat [] = (pat = [])"
| "contains pat (c # cs) = (prefix pat (c # cs) \<or> contains pat cs)"

text \<open>
  \<^verbatim>\<open>s.split(pat)\<close> for a non-empty literal pattern: the text is scanned from the left, every
  match of the pattern closes the current piece and the scan resumes behind the match.
  The notebook only ever passes \<^verbatim>\<open>"_and_"\<close>, which as a regular expression matches
  itself and nothing else.
\<close>

fun str_split :: "string \<Rightarrow> string \<Rightarrow> string list" where
  "str_split pat [] = [[]]"
| "str_split pat (c # cs) =
     (if prefix pat (c # cs) then [] # str_split pat (drop (length pat - 1) cs)
      else (case str_split pat cs of
              [] \<Rightarrow> [[c]]
            | p # ps \<Rightarrow> (c # p) # ps))"

text \<open>
  \<^verbatim>\<open>str.isspace\<close> on one character, for the code points below 256: the ASCII controls
  9 to 13 and 28 to 31, the blank, NEL (133) and the no-break space (160).
\<close>

definition isspace :: "char \<Rightarrow> bool" where
  "isspace c = ((of_char c :: nat) \<in> {9, 10, 11, 12, 13, 28, 29, 30, 31, 32, 133, 160})"

text \<open>\<^verbatim>\<open>s.strip()\<close>: white space is removed from both ends.\<close>

definition strip :: "string \<Rightarrow> string" where
  "strip s = rev (dropWhile isspace (rev (dropWhile isspace s)))"

section \<open>The scoring loop\<close>

text \<open>
  A Python \<^verbatim>\<open>dict\<close> keeps its keys in the order of their first insertion; assigning to a
  key that is already present replaces the value and leaves the position alone.  It is
  modelled as an association list with pairwise different keys.
\<close>

type_synonym dict = "(string \<times> int) list"

fun dict_set :: "dict \<Rightarrow> string \<Rightarrow> int \<Rightarrow> dict" where
  "dict_set [] k v = [(k, v)]"
| "dict_set ((k', v') # d) k v =
     (if k' = k then (k', v) # d else (k', v') # dict_set d k v)"

text \<open>
  The inner loop of lines 29 to 31 (and 92 to 94) for one left value, and the outer loop
  over the left values.  Both thread the dictionary through.
\<close>

definition score_row :: "metric \<Rightarrow> string \<Rightarrow> string list \<Rightarrow> dict \<Rightarrow> dict" where
  "score_row metric s1 arr2 d =
     fold (\<lambda>s2 d'. dict_set d' (pair_key s1 s2) (metric s1 s2)) arr2 d"

definition score_loop :: "metric \<Rightarrow> string list \<Rightarrow> string list \<Rightarrow> dict \<Rightarrow> dict" where
  "score_loop metric arr1 arr2 d = fold (\<lambda>s1 d'. score_row metric s1 arr2 d') arr1 d"

text \<open>
  \<^verbatim>\<open>dl_dist_func\<close> (lines 89 to 96): the dictionary is a fresh local one, returned at the
  end.
\<close>

definition dl_dist_func :: "metric \<Rightarrow> string list \<Rightarrow> string list \<Rightarrow> dict" where
  "dl_dist_func metric arr1 arr2 = score_loop metric arr1 arr2 []"

text \<open>
  The first cell runs the same two loops at top level (lines 27 to 31), on the
  \<^verbatim>\<open>Address\<close> columns of the two tables, starting from the empty dictionary of line 27.
\<close>

definition dl_dist :: "metric \<Rightarrow> string list \<Rightarrow> string list \<Rightarrow> dict" where
  "dl_dist metric data1_Address data2_Address =
     fold (\<lambda>s1 d. fold (\<lambda>s2 d'. dict_set d' (pair_key s1 s2) (metric s1 s2)) data2_Address d)
       data1_Address []"



text \<open>
  Lines 107 to 109: \<^verbatim>\<open>Parallel()\<close> runs one \<^verbatim>\<open>dl_dist_func\<close> task for every pair that
  \<^verbatim>\<open>zip\<close> yields and returns the results as a list in the order of the tasks.  The
  notebook passes two one-element lists; the lists are parameters here.
\<close>

definition dl_dist_par :: "metric \<Rightarrow> string list list \<Rightarrow> string list list \<Rightarrow> dict list" where
  "dl_dist_par metric chunks1 chunks2 =
     map (\<lambda>(arr1, arr2). dl_dist_func metric arr1 arr2) (zip chunks1 chunks2)"

text \<open>
  Modelled from the spec: the notebook never combines the dictionaries of several tasks
  (it only pops the single one, line 112).  The spec's orchestrator joins the chunk
  results before selection; on dictionaries that is \<^verbatim>\<open>d.update(d')\<close> chunk after chunk,
  starting from an empty dictionary.
\<close>

definition dict_update :: "dict \<Rightarrow> dict \<Rightarrow> dict" where
  "dict_update d d' = fold (\<lambda>(k, v) acc. dict_set acc k v) d' d"

definition merge_chunks :: "dict list \<Rightarrow> dict" where
  "merge_chunks ds = fold (\<lambda>d' acc. dict_update acc d') ds []"

section \<open>From the dictionary to the table of scored pairs\<close>

text \<open>
  Assigning a list of names to \<^verbatim>\<open>DataFrame.columns\<close> raises
  \<^verbatim>\<open>ValueError: Length mismatch: Expected axis has n elements, new values have m elements\<close>
  unless the frame has as many columns as there are names.
\<close>

datatype error = LengthMismatch nat nat

definition set_columns :: "nat \<Rightarrow> nat \<Rightarrow> 'a \<Rightarrow> error + 'a" where
  "set_columns width names frame =
     (if width = names then Inr frame else Inl (LengthMismatch width names))"

text \<open>
  Rows carry their index label.  \<open>raw_row\<close> is a row of \<^verbatim>\<open>dl_dist_df_raw\<close>, \<open>proc_row\<close> a row
  of \<^verbatim>\<open>dl_dist_df_proc\<close>; a cell that \<^verbatim>\<open>str.split(expand=True)\<close> pads is \<open>None\<close>.
\<close>

record row =
  idx :: nat
  dist :: int

record raw_row = row +
  addresses :: string

record proc_row = row +
  address_1 :: "string option"
  address_2 :: "string option"

text \<open>
  \<^verbatim>\<open>pd.DataFrame.from_dict(dl_dist, orient="index")\<close> has one row per key and, the values
  being scalars, one column; built from an empty dictionary it has no row and no column.
  \<^verbatim>\<open>reset_index()\<close> turns the keys into one more column and numbers the rows from 0.
  Line 41 then names two columns.
\<close>

definition from_dict_width :: "dict \<Rightarrow> nat" where
  "from_dict_width d = (if d = [] then 0 else 1)"

definition dl_dist_df_raw :: "dict \<Rightarrow> error + raw_row list" where
  "dl_dist_df_raw d =
     set_columns (from_dict_width d + 1) 2
       (map (\<lambda>(i, (k, v)). \<lparr>idx = i, dist = v, addresses = k\<rparr>) (enumerate 0 d))"

text \<open>
  Line 42: every key is split on \<^verbatim>\<open>"_and_"\<close>; with \<^verbatim>\<open>expand=True\<close> the result has as many
  columns as the longest list of pieces (none when there is no row), shorter lists being
  padded.  Line 43 names two columns, line 44 copies the distances over.
\<close>

definition split_width :: "string list list \<Rightarrow> nat" where
  "split_width pieces = fold max (map length pieces) 0"

definition cell :: "string list \<Rightarrow> nat \<Rightarrow> string option" where
  "cell ps n = (if n < length ps then Some (ps ! n) else None)"

definition dl_dist_df_proc :: "raw_row list \<Rightarrow> error + proc_row list" where
  "dl_dist_df_proc raw =
     set_columns (split_width (map (\<lambda>r. str_split pat_and (addresses r)) raw)) 2
       (map (\<lambda>r. let ps = str_split pat_and (addresses r)
                 in \<lparr>idx = idx r, dist = dist r, address_1 = cell ps 0, address_2 = cell ps 1\<rparr>)
          raw)"

section \<open>Selecting the best match\<close>

text \<open>
  \<^verbatim>\<open>df.sort_values("dist", ascending=True)\<close> is called without \<^verbatim>\<open>kind\<close>, so pandas sorts
  with its default, \<^verbatim>\<open>quicksort\<close>, which orders the rows by distance and promises nothing
  about rows of equal distance.  The sort is therefore a parameter \<open>srt\<close> of the selection,
  constrained by \<open>sort_values_ok\<close>; \<open>sort_values_stable\<close> and \<open>sort_values_last\<close> are two
  sorts that meet the constraint, the first keeping equal rows in their order, the second
  reversing them.
\<close>

type_synonym sorter = "proc_row list \<Rightarrow> proc_row list"

definition sort_values_ok :: "sorter \<Rightarrow> bool" where
  "sort_values_ok srt = (\<forall>df. mset (srt df) = mset df \<and> sorted (map dist (srt df)))"

definition sort_values_stable :: sorter where
  "sort_values_stable df = sort_key dist df"


text \<open>
  \<^verbatim>\<open>groupby("address_1", group_keys=False)\<close>: rows whose key is missing are left out, the
  groups come in ascending order of the key (\<^verbatim>\<open>sort=True\<close> is the default), each group
  keeps its rows in frame order.
\<close>

definition group_keys :: "proc_row list \<Rightarrow> string list" where
  "group_keys df = sort (remdups (List.map_filter address_1 df))"

definition get_group :: "proc_row list \<Rightarrow> string \<Rightarrow> proc_row list" where
  "get_group df k = filter (\<lambda>r. address_1 r = Some k) df"

text \<open>
  \<^verbatim>\<open>.apply(f)\<close> with \<^verbatim>\<open>group_keys=False\<close>: \<open>f\<close> receives each group with all its columns
  (the grouping column included, as line 62 requires) and the results are concatenated in
  group order.  When every result carries exactly the index labels of its group, pandas
  takes the call for a transformation and puts the rows back into the order of the frame's
  index (\<open>reindex\<close>; every label is present in that case).
\<close>

definition reindex :: "nat list \<Rightarrow> proc_row list \<Rightarrow> proc_row list" where
  "reindex ax rows = List.map_filter (\<lambda>i. find (\<lambda>r. idx r = i) rows) ax"

definition groupby_apply :: "(proc_row list \<Rightarrow> proc_row list) \<Rightarrow> proc_row list \<Rightarrow> proc_row list" where
  "groupby_apply f df =
     (let groups = map (get_group df) (group_keys df);
          results = map f groups;
          mutated = list_ex (\<lambda>g. map idx (f g) \<noteq> map idx g) groups
      in if mutated then concat results
         else reindex (map idx (filter (\<lambda>r. address_1 r \<noteq> None) df)) (concat results))"

text \<open>\<^verbatim>\<open>reset_index(drop=True)\<close> numbers the rows from 0 again.\<close>

definition reset_index_drop :: "proc_row list \<Rightarrow> proc_row list" where
  "reset_index_drop rows = map (\<lambda>(i, r). r\<lparr>idx := i\<rparr>) (enumerate 0 rows)"

text \<open>Lines 51 to 54.\<close>

definition dl_dist_fin :: "sorter \<Rightarrow> proc_row list \<Rightarrow> proc_row list" where
  "dl_dist_fin srt dl_dist_df_proc_rows =
     reset_index_drop (groupby_apply (\<lambda>df. take 1 (srt df)) dl_dist_df_proc_rows)"

text \<open>
  The cells of lines 40 to 54 run on a dictionary, one after the other; an exception in
  one of them ends the run.
\<close>

definition select_best :: "sorter \<Rightarrow> dict \<Rightarrow> error + proc_row list" where
  "select_best srt d =
     (case dl_dist_df_raw d of
        Inl e \<Rightarrow> Inl e
      | Inr raw \<Rightarrow>
          (case dl_dist_df_proc raw of
             Inl e \<Rightarrow> Inl e
           | Inr proc \<Rightarrow> Inr (dl_dist_fin srt proc)))"

text \<open>The matching pass of the notebook: lines 27 to 54 on two columns of text.\<close>

definition matching_pass :: "sorter \<Rightarrow> metric \<Rightarrow> string list \<Rightarrow> string list \<Rightarrow> error + proc_row list" where
  "matching_pass srt metric data1_Address data2_Address =
     select_best srt (dl_dist metric data1_Address data2_Address)"

text \<open>
  The pairs \<open>left value \<rightarrow> matched right value\<close> of a selection, as lines 62 and 71
  leave them: both columns stripped.
\<close>

definition match_pairs :: "proc_row list \<Rightarrow> (string option \<times> string option) set" where
  "match_pairs fin = set (map (\<lambda>r. (map_option strip (address_1 r), map_option strip (address_2 r))) fin)"

section \<open>Joining back onto the tables\<close>

text \<open>
  A row of either table: the \<^verbatim>\<open>Address\<close> column and the other columns.  The second merge
  (line 74) is a left join of \<^verbatim>\<open>data_both\<close> with \<^verbatim>\<open>data2\<close> on
  \<^verbatim>\<open>address_2 = Address\<close>, after both key columns were stripped (lines 70 and 71): every
  row of \<^verbatim>\<open>data_both\<close>, in order, is paired with each row of \<^verbatim>\<open>data2\<close> that has its key,
  or once with missing right-side fields when there is none.
\<close>

record 'a table_row =
  Address :: string
  others :: 'a

definition merge_left ::
  "'l list \<Rightarrow> 'r list \<Rightarrow> ('l \<Rightarrow> string option) \<Rightarrow> ('r \<Rightarrow> string option) \<Rightarrow> ('l \<times> 'r option) list" where
  "merge_left left right left_on right_on =
     concat (map (\<lambda>l. case filter (\<lambda>r. right_on r = left_on l) right of
                           [] \<Rightarrow> [(l, None)]
                         | ms \<Rightarrow> map (\<lambda>r. (l, Some r)) ms) left)"

definition strip_Address :: "'a table_row \<Rightarrow> 'a table_row" where
  "strip_Address t = t\<lparr>Address := strip (Address t)\<rparr>"

definition strip_address_2 :: "'b \<times> proc_row \<Rightarrow> 'b \<times> proc_row" where
  "strip_address_2 b = (fst b, (snd b)\<lparr>address_2 := map_option strip (address_2 (snd b))\<rparr>)"

definition data_fin ::
  "('b \<times> proc_row) list \<Rightarrow> 'a table_row list \<Rightarrow> (('b \<times> proc_row) \<times> 'a table_row option) list" where
  "data_fin data_both data2 =
     merge_left (map strip_address_2 data_both) (map strip_Address data2)
       (\<lambda>b. address_2 (snd b)) (\<lambda>t. Some (Address t))"

section \<open>Auxiliary notions\<close>

text \<open>
  The values of a sequence in the order of their first occurrence, the sequence of
  assignments \<^verbatim>\<open>dl_dist[key] = temp_dist\<close> that the two loops execute, and the effect of a
  sequence of assignments on a dictionary.
\<close>

definition first_seen :: "'a list \<Rightarrow> 'a list" where
  "first_seen xs = rev (remdups (rev xs))"

definition assignments :: "metric \<Rightarrow> string list \<Rightarrow> string list \<Rightarrow> (string \<times> int) list" where
  "assignments metric arr1 arr2 =
     concat (map (\<lambda>s1. map (\<lambda>s2. (pair_key s1 s2, metric s1 s2)) arr2) arr1)"

definition assign_all :: "(string \<times> int) list \<Rightarrow> dict \<Rightarrow> dict" where
  "assign_all kvs d = fold (\<lambda>(k, v) acc. dict_set acc k v) kvs d"

text \<open>No value of a sequence contains the pattern \<^verbatim>\<open>_and_\<close>.\<close>

definition no_separator :: "string list \<Rightarrow> bool" where
  "no_separator arr = (\<forall>s\<in>set arr. \<not> contains pat_and s)"

text \<open>
  A stand-in for the library metric, used where a definition is evaluated at concrete
  values: the difference of the two lengths.
\<close>

definition length_gap :: metric where
  "length_gap s1 s2 = abs (int (length s1) - int (length s2))"

text \<open>
  The table of scored pairs that the notebook builds from two sequences free of the
  pattern: one row per pair of a distinct left and a distinct right value, left values in
  the order of their first occurrence and, under each, the right values in theirs.
\<close>

definition scored_row :: "metric \<Rightarrow> nat \<Rightarrow> string \<times> string \<Rightarrow> proc_row" where
  "scored_row metric i p =
     \<lparr>idx = i, dist = metric (fst p) (snd p),
      address_1 = Some (fst p @ '' ''), address_2 = Some ('' '' @ snd p)\<rparr>"

definition scored_rows :: "metric \<Rightarrow> string list \<Rightarrow> string list \<Rightarrow> proc_row list" where
  "scored_rows metric arr1 arr2 =
     map (\<lambda>(i, p). scored_row metric i p)
       (enumerate 0 (List.product (first_seen arr1) (first_seen arr2)))"

text \<open>
  The keys of the selected rows in the order in which the selection returns them: in
  ascending order when there are two or more distinct right values, in the order of first
  occurrence when there is one.
\<close>

definition selected_keys :: "string list \<Rightarrow> string list \<Rightarrow> string list" where
  "selected_keys arr1 arr2 =
     (if 2 \<le> card (set arr2) then sort (remdups (map (\<lambda>s. s @ '' '') arr1))
      else map (\<lambda>s. s @ '' '') (first_seen arr1))"


section \<open>Keys and their pieces\<close>

text \<open>
  The pattern contains no blank, so a match that begins before a blank ends before it.
\<close>

lemma prefix_pat_and_blank:
  "prefix pat_and (u @ CHR '' '' # t) \<Longrightarrow> prefix pat_and u"
  by (auto simp: prefix_append pat_and_def prefix_Cons Cons_eq_append_conv)

lemma str_split_not_Nil: "str_split pat s \<noteq> []"
  by (induction s) (auto split: list.splits)

lemma str_split_no_match: "\<not> contains pat s \<Longrightarrow> str_split pat s = [s]"
  by (induction s) auto

lemma str_split_left:
  "\<not> contains pat_and s1 \<Longrightarrow>
   str_split pat_and (s1 @ CHR '' '' # t) =
     (case str_split pat_and (CHR '' '' # t) of [] \<Rightarrow> [s1] | p # ps \<Rightarrow> (s1 @ p) # ps)"
proof (induction s1)
  case Nil
  then show ?case by (simp split: list.splits)
next
  case (Cons c cs)
  have "\<not> prefix pat_and ((c # cs) @ CHR '' '' # t)"
    using Cons.prems prefix_pat_and_blank[of "c # cs" t] by auto
  then show ?case using Cons by (auto split: list.splits)
qed

lemma str_split_pair_key:
  assumes "\<not> contains pat_and s1" "\<not> contains pat_and s2"
  shows "str_split pat_and (pair_key s1 s2) = [s1 @ '' '', '' '' @ s2]"
proof -
  have a: "str_split pat_and (CHR '' '' # s2) = [CHR '' '' # s2]"
    using assms(2) by (intro str_split_no_match) (simp add: pat_and_def)
  have b: "str_split pat_and (CHR '' '' # ''_and_ '' @ s2) = ['' '', CHR '' '' # s2]"
    using a by (simp add: pat_and_def)
  show ?thesis
    unfolding pair_key_def using str_split_left[OF assms(1), of "''_and_ '' @ s2"] b by simp
qed

lemma isspace_blank: "isspace CHR '' ''"
  by (simp add: isspace_def)

lemma strip_blank_left: "strip (CHR '' '' # s) = strip s"
  by (simp add: strip_def isspace_blank)

lemma strip_blank_right: "strip (s @ '' '') = strip s"
proof (cases "\<forall>c\<in>set s. isspace c")
  case True
  then have a: "dropWhile isspace s = []"
    by (induction s) auto
  from True have b: "dropWhile isspace (s @ '' '') = []"
    by (induction s) (auto simp: isspace_blank)
  show ?thesis unfolding strip_def a b by simp
next
  case False
  then have "dropWhile isspace (s @ '' '') = dropWhile isspace s @ '' ''"
    by (auto simp: dropWhile_append)
  then show ?thesis by (simp add: strip_def isspace_blank)
qed

text \<open>
  C9.  When neither value contains \<^verbatim>\<open>_and_\<close>, splitting the key \<^verbatim>\<open>f"{s1} _and_ {s2}"\<close> on
  \<^verbatim>\<open>_and_\<close> gives exactly two pieces, and stripping them gives the two values stripped.
  For some values that contain \<^verbatim>\<open>_and_\<close> the pieces are not the pair: the key of
  \<^verbatim>\<open>"a_and_b"\<close> and \<^verbatim>\<open>"c"\<close> falls into three pieces.
\<close>

theorem key_round_trip:
  "(\<not> contains pat_and s1 \<longrightarrow> \<not> contains pat_and s2 \<longrightarrow>
      map strip (str_split pat_and (pair_key s1 s2)) = [strip s1, strip s2]) \<and>
   (\<exists>a b. contains pat_and a \<and>
      map strip (str_split pat_and (pair_key a b)) \<noteq> [strip a, strip b])"
proof (intro conjI impI)
  assume "\<not> contains pat_and s1" "\<not> contains pat_and s2"
  then have "str_split pat_and (pair_key s1 s2) = [s1 @ '' '', CHR '' '' # s2]"
    using str_split_pair_key by simp
  then show "map strip (str_split pat_and (pair_key s1 s2)) = [strip s1, strip s2]"
    by (simp add: strip_blank_left strip_blank_right)
next
  have "contains pat_and ''a_and_b''"
    by (simp add: pat_and_def)
  moreover have "str_split pat_and (pair_key ''a_and_b'' ''c'') = [''a'', ''b '', '' c'']"
    by (simp add: pat_and_def pair_key_def)
  ultimately show "\<exists>a b. contains pat_and a \<and>
      map strip (str_split pat_and (pair_key a b)) \<noteq> [strip a, strip b]"
    by (intro exI[of _ "''a_and_b''"] exI[of _ "''c''"]) simp
qed

theorem key_round_trip_witness:
  "\<not> contains pat_and ''12 Elm St '' \<and> \<not> contains pat_and '' 12 Elm Street'' \<and>
   map strip (str_split pat_and (pair_key ''12 Elm St '' '' 12 Elm Street'')) =
     [''12 Elm St'', ''12 Elm Street'']"
proof -
  have a: "\<not> contains pat_and ''12 Elm St ''"
    by (simp add: pat_and_def)
  have b: "\<not> contains pat_and '' 12 Elm Street''"
    by (simp add: pat_and_def)
  have c: "strip ''12 Elm St '' = ''12 Elm St''" "strip '' 12 Elm Street'' = ''12 Elm Street''"
    by (simp_all add: strip_def isspace_def)
  from key_round_trip[of "''12 Elm St ''" "'' 12 Elm Street''"] a b c show ?thesis
    by simp
qed

section \<open>The dictionary built by the loops\<close>

lemma first_seen_Nil [simp]: "first_seen [] = []"
  by (simp add: first_seen_def)

lemma first_seen_snoc:
  "first_seen (xs @ [x]) = (if x \<in> set xs then first_seen xs else first_seen xs @ [x])"
  by (simp add: first_seen_def)

lemma set_first_seen [simp]: "set (first_seen xs) = set xs"
  by (simp add: first_seen_def)

lemma distinct_first_seen [simp]: "distinct (first_seen xs)"
  by (simp add: first_seen_def)

lemma length_first_seen: "length (first_seen xs) = card (set xs)"
  using distinct_card[of "first_seen xs"] by simp

lemma first_seen_distinct: "distinct xs \<Longrightarrow> first_seen xs = xs"
  by (simp add: first_seen_def distinct_remdups_id)

lemma keys_dict_set:
  "map fst (dict_set d k v) = (if k \<in> fst ` set d then map fst d else map fst d @ [k])"
  by (induction d) force+

lemma set_keys_dict_set: "fst ` set (dict_set d k v) = insert k (fst ` set d)"
  using keys_dict_set[of d k v] by (metis (no_types, lifting) insert_absorb list.set_map set_append  list.simps(15) Un_insert_right sup_bot.right_neutral empty_set)

lemma distinct_dict_set: "distinct (map fst d) \<Longrightarrow> distinct (map fst (dict_set d k v))"
  by (simp add: keys_dict_set)

lemma map_of_dict_set: "map_of (dict_set d k v) = (map_of d)(k \<mapsto> v)"
  by (induction d) auto

lemma dict_set_absent: "k \<notin> fst ` set d \<Longrightarrow> dict_set d k v = d @ [(k, v)]"
  by (induction d) auto

lemma dict_set_present: "distinct (map fst d) \<Longrightarrow> (k, v) \<in> set d \<Longrightarrow> dict_set d k v = d"
  by (induction d) (auto simp: rev_image_eqI)

lemma assign_all_snoc: "assign_all (kvs @ [(k, v)]) d = dict_set (assign_all kvs d) k v"
  by (simp add: assign_all_def)

lemma assign_all_append: "assign_all (xs @ ys) d = assign_all ys (assign_all xs d)"
  by (simp add: assign_all_def)

lemma assign_all_Nil [simp]: "assign_all [] d = d"
  by (simp add: assign_all_def)

lemma set_keys_assign_all: "fst ` set (assign_all kvs d) = fst ` set kvs \<union> fst ` set d"
proof (induction kvs rule: rev_induct)
  case Nil
  show ?case by simp
next
  case (snoc kv kvs)
  obtain k v where kv: "kv = (k, v)" by (cases kv)
  show ?case unfolding kv assign_all_snoc set_keys_dict_set snoc.IH by auto
qed

lemma distinct_assign_all: "distinct (map fst d) \<Longrightarrow> distinct (map fst (assign_all kvs d))"
proof (induction kvs rule: rev_induct)
  case Nil
  then show ?case by simp
next
  case (snoc kv kvs)
  obtain k v where kv: "kv = (k, v)" by (cases kv)
  show ?case unfolding kv assign_all_snoc using snoc by (intro distinct_dict_set) simp
qed

lemma score_row_assign: "score_row m s1 R d = assign_all (map (\<lambda>s2. (pair_key s1 s2, m s1 s2)) R) d"
  by (simp add: score_row_def assign_all_def fold_map comp_def)

lemma score_loop_assign: "score_loop m L R d = assign_all (assignments m L R) d"
proof (induction L arbitrary: d)
  case Nil
  show ?case by (simp add: score_loop_def assignments_def)
next
  case (Cons s1 L)
  have "score_loop m (s1 # L) R d = score_loop m L R (score_row m s1 R d)"
    by (simp add: score_loop_def)
  also have "\<dots> = assign_all (assignments m L R) (assign_all (map (\<lambda>s2. (pair_key s1 s2, m s1 s2)) R) d)"
    by (simp add: Cons.IH score_row_assign)
  also have "\<dots> = assign_all (assignments m (s1 # L) R) d"
    by (simp add: assignments_def assign_all_append)
  finally show ?case .
qed

lemma dl_dist_eq_func: "dl_dist m L R = dl_dist_func m L R"
  by (simp add: dl_dist_def dl_dist_func_def score_loop_def score_row_def)

lemma pair_key_inject:
  assumes "\<not> contains pat_and a" "\<not> contains pat_and b" "\<not> contains pat_and a'" "\<not> contains pat_and b'"
    and "pair_key a b = pair_key a' b'"
  shows "a = a' \<and> b = b'"
proof -
  have "str_split pat_and (pair_key a b) = str_split pat_and (pair_key a' b')"
    by (rule arg_cong[OF assms(5)])
  then have "[a @ '' '', '' '' @ b] = [a' @ '' '', '' '' @ b']"
    by (simp only: str_split_pair_key[OF assms(1,2)] str_split_pair_key[OF assms(3,4)])
  then show ?thesis by simp
qed

lemma pair_key_inj_on:
  assumes "no_separator L" "no_separator R"
  shows "inj_on (\<lambda>(a, b). pair_key a b) (set L \<times> set R)"
  using assms unfolding inj_on_def no_separator_def
  by (auto dest!: pair_key_inject[rotated -1])

lemma set_assignments:
  "set (assignments m L R) = (\<lambda>(a, b). (pair_key a b, m a b)) ` (set L \<times> set R)"
  by (auto simp: assignments_def)

lemma assignments_snoc:
  "assignments m (L @ [s1]) R = assignments m L R @ map (\<lambda>s2. (pair_key s1 s2, m s1 s2)) R"
  by (simp add: assignments_def)

lemma dict_set_append_absent:
  "k \<notin> fst ` set d \<Longrightarrow> dict_set (d @ e) k v = d @ dict_set e k v"
  by (induction d) auto

lemma score_row_fresh:
  assumes "inj_on (pair_key s1) (set R)" "\<forall>s2\<in>set R. pair_key s1 s2 \<notin> fst ` set d"
  shows "score_row m s1 R d = d @ map (\<lambda>s2. (pair_key s1 s2, m s1 s2)) (first_seen R)"
  using assms
proof (induction R rule: rev_induct)
  case Nil
  show ?case by (simp add: score_row_def)
next
  case (snoc s2 R)
  let ?row = "\<lambda>xs. map (\<lambda>s2. (pair_key s1 s2, m s1 s2)) xs"
  have inj: "inj_on (pair_key s1) (set R)"
    using snoc.prems(1) by (auto simp: inj_on_def)
  have IH: "score_row m s1 R d = d @ ?row (first_seen R)"
    using snoc.IH[OF inj] snoc.prems(2) by simp
  have step: "score_row m s1 (R @ [s2]) d = dict_set (d @ ?row (first_seen R)) (pair_key s1 s2) (m s1 s2)"
    using IH by (simp add: score_row_def)
  show ?case
  proof (cases "s2 \<in> set R")
    case True
    have "distinct (map fst (?row (first_seen R)))"
      using inj by (simp add: distinct_map comp_def inj_on_def)
    moreover have "(pair_key s1 s2, m s1 s2) \<in> set (?row (first_seen R))"
      using True by auto
    ultimately have "dict_set (?row (first_seen R)) (pair_key s1 s2) (m s1 s2) = ?row (first_seen R)"
      by (rule dict_set_present)
    moreover have "pair_key s1 s2 \<notin> fst ` set d"
      using snoc.prems(2) by simp
    ultimately have "dict_set (d @ ?row (first_seen R)) (pair_key s1 s2) (m s1 s2) = d @ ?row (first_seen R)"
      by (simp add: dict_set_append_absent)
    then show ?thesis using True step by (simp add: first_seen_snoc)
  next
    case False
    have "pair_key s1 s2 \<notin> fst ` set (d @ ?row (first_seen R))"
      using False snoc.prems by (auto simp: image_Un image_image inj_on_def)
    then show ?thesis using False step by (simp add: first_seen_snoc dict_set_absent)
  qed
qed


lemma score_row_seen:
  assumes "distinct (map fst d)" "\<forall>s2\<in>set R. (pair_key s1 s2, m s1 s2) \<in> set d"
  shows "score_row m s1 R d = d"
  using assms
proof (induction R rule: rev_induct)
  case Nil
  show ?case by (simp add: score_row_def)
next
  case (snoc s2 R)
  then have "score_row m s1 R d = d" by simp
  then have "score_row m s1 (R @ [s2]) d = dict_set d (pair_key s1 s2) (m s1 s2)"
    by (simp add: score_row_def)
  then show ?case using snoc.prems by (simp add: dict_set_present)
qed

lemma score_loop_snoc:
  "score_loop m (L @ [s1]) R d = score_row m s1 R (score_loop m L R d)"
  by (simp add: score_loop_def)

lemma distinct_keys_score_loop: "distinct (map fst (score_loop m L R []))"
  by (simp add: score_loop_assign distinct_assign_all)

lemma set_keys_score_loop:
  "fst ` set (score_loop m L R []) = (\<lambda>(a, b). pair_key a b) ` (set L \<times> set R)"
proof -
  have "fst ` set (score_loop m L R []) = fst ` set (assignments m L R)"
    by (simp add: score_loop_assign set_keys_assign_all)
  also have "\<dots> = (\<lambda>p. pair_key (fst p) (snd p)) ` (set L \<times> set R)"
    by (simp add: set_assignments image_image split_def)
  finally show ?thesis
    by (simp add: split_def)
qed

lemma score_loop_table:
  assumes "inj_on (\<lambda>(a, b). pair_key a b) (set L \<times> set R)"
  shows "score_loop m L R [] = assignments m (first_seen L) (first_seen R)"
  using assms
proof (induction L rule: rev_induct)
  case Nil
  show ?case by (simp add: score_loop_def assignments_def)
next
  case (snoc s1 L)
  have inj: "inj_on (\<lambda>(a, b). pair_key a b) (set L \<times> set R)"
    by (rule inj_on_subset[OF snoc.prems]) auto
  have IH: "score_loop m L R [] = assignments m (first_seen L) (first_seen R)"
    by (rule snoc.IH[OF inj])
  show ?case
  proof (cases "s1 \<in> set L")
    case True
    have "\<forall>s2\<in>set R. (pair_key s1 s2, m s1 s2) \<in> set (score_loop m L R [])"
      using True by (auto simp: IH set_assignments)
    then have "score_row m s1 R (score_loop m L R []) = score_loop m L R []"
      by (intro score_row_seen distinct_keys_score_loop)
    then show ?thesis using True IH by (simp add: score_loop_snoc first_seen_snoc)
  next
    case False
    have a: "inj_on (pair_key s1) (set R)"
      using snoc.prems by (auto simp: inj_on_def)
    have b: "\<forall>s2\<in>set R. pair_key s1 s2 \<notin> fst ` set (score_loop m L R [])"
    proof
      fix s2 assume s2: "s2 \<in> set R"
      show "pair_key s1 s2 \<notin> fst ` set (score_loop m L R [])"
      proof
        assume "pair_key s1 s2 \<in> fst ` set (score_loop m L R [])"
        then obtain a b where ab: "a \<in> set L" "b \<in> set R" "pair_key s1 s2 = pair_key a b"
          by (auto simp: set_keys_score_loop)
        have "(s1, s2) = (a, b)"
          using inj_onD[OF snoc.prems, of "(s1, s2)" "(a, b)"] ab s2 by simp
        then show False using False ab by simp
      qed
    qed
    have "score_row m s1 R (score_loop m L R []) =
            score_loop m L R [] @ map (\<lambda>s2. (pair_key s1 s2, m s1 s2)) (first_seen R)"
      by (rule score_row_fresh[OF a b])
    then show ?thesis using False IH
      by (simp add: score_loop_snoc first_seen_snoc assignments_snoc)
  qed
qed

lemma assignments_empty: "L = [] \<or> R = [] \<Longrightarrow> assignments m L R = []"
  by (induction L) (auto simp: assignments_def)

lemma dl_dist_func_empty: "L = [] \<or> R = [] \<Longrightarrow> dl_dist_func m L R = []"
  by (simp add: dl_dist_func_def score_loop_assign assignments_empty)

lemma length_assignments: "length (assignments m L R) = length L * length R"
  by (induction L) (simp_all add: assignments_def)

lemma length_dl_dist_func:
  "length (dl_dist_func m L R) = card ((\<lambda>(a, b). pair_key a b) ` (set L \<times> set R))"
proof -
  have "length (dl_dist_func m L R) = length (map fst (score_loop m L R []))"
    by (simp add: dl_dist_func_def)
  also have "\<dots> = card (set (map fst (score_loop m L R [])))"
    by (rule distinct_card[symmetric, OF distinct_keys_score_loop])
  also have "\<dots> = card ((\<lambda>(a, b). pair_key a b) ` (set L \<times> set R))"
    by (simp add: set_keys_score_loop)
  finally show ?thesis .
qed

section \<open>Joining the dictionaries of several chunks\<close>

lemma dict_eqI:
  "distinct (map fst d1) \<Longrightarrow> map fst d1 = map fst d2 \<Longrightarrow> map_of d1 = map_of d2 \<Longrightarrow> d1 = d2"
proof (induction d1 arbitrary: d2)
  case Nil
  then show ?case by simp
next
  case (Cons kv d1)
  obtain k v where kv: "kv = (k, v)" by (cases kv)
  from Cons.prems(2) obtain v' d2' where d2: "d2 = (k, v') # d2'" and keys: "map fst d1 = map fst d2'"
    by (cases d2) (auto simp: kv)
  have fresh: "k \<notin> fst ` set d1" "k \<notin> fst ` set d2'"
    using Cons.prems(1) keys by (auto simp: kv) (metis image_eqI list.set_map fst_conv)
  have "map_of (kv # d1) k = map_of d2 k"
    by (simp only: Cons.prems(3))
  then have v: "v = v'" by (simp add: kv d2)
  have "map_of d1 = map_of d2'"
  proof
    fix x
    show "map_of d1 x = map_of d2' x"
    proof (cases "x = k")
      case True
      then show ?thesis using fresh by (simp add: map_of_eq_None_iff[THEN iffD2])
    next
      case False
      have "map_of (kv # d1) x = map_of d2 x" by (simp only: Cons.prems(3))
      then show ?thesis using False by (simp add: kv d2)
    qed
  qed
  then have "d1 = d2'"
    using Cons.prems(1) keys by (intro Cons.IH) simp_all
  then show ?case by (simp add: kv d2 v)
qed

lemma keys_assign_all:
  "map fst (assign_all kvs d) = map fst d @ filter (\<lambda>k. k \<notin> fst ` set d) (first_seen (map fst kvs))"
proof (induction kvs rule: rev_induct)
  case Nil
  show ?case by simp
next
  case (snoc kv kvs)
  obtain k v where kv: "kv = (k, v)" by (cases kv)
  show ?case unfolding kv assign_all_snoc keys_dict_set
    by (auto simp: snoc.IH set_keys_assign_all first_seen_snoc image_Un)
qed

lemma map_of_assign_all: "map_of (assign_all kvs d) = map_of d ++ map_of (rev kvs)"
proof (induction kvs rule: rev_induct)
  case Nil
  show ?case by simp
next
  case (snoc kv kvs)
  obtain k v where kv: "kv = (k, v)" by (cases kv)
  have "map_of (rev (kvs @ [(k, v)])) = (map_of (rev kvs))(k \<mapsto> v)"
    by simp
  then show ?case unfolding kv assign_all_snoc map_of_dict_set snoc.IH
    by (simp only: map_add_upd)
qed

lemma map_of_rev_distinct: "distinct (map fst d) \<Longrightarrow> map_of (rev d) = map_of d"
  by (rule map_of_inject_set[THEN iffD2]) (simp_all add: rev_map[symmetric])

lemma assign_all_dict:
  assumes "distinct (map fst d)"
  shows "assign_all (assign_all kvs []) d = assign_all kvs d"
proof (rule dict_eqI)
  have dk: "distinct (map fst (assign_all kvs []))"
    by (simp add: distinct_assign_all)
  show "map fst (assign_all (assign_all kvs []) d) = map fst (assign_all kvs d)"
    using dk by (simp add: keys_assign_all[of _ d] keys_assign_all[of kvs "[]"] first_seen_distinct)
  show "map_of (assign_all (assign_all kvs []) d) = map_of (assign_all kvs d)"
    using dk by (simp add: map_of_assign_all map_of_rev_distinct)
  show "distinct (map fst (assign_all (assign_all kvs []) d))"
    by (rule distinct_assign_all[OF assms])
qed

lemma dict_update_dl_dist_func:
  "distinct (map fst d) \<Longrightarrow> dict_update d (dl_dist_func m L R) = score_loop m L R d"
  using assign_all_dict[of d "assignments m L R"]
  by (simp add: dict_update_def dl_dist_func_def score_loop_assign assign_all_def)

lemma score_loop_concat:
  "fold (\<lambda>c acc. score_loop m c R acc) chunks d = score_loop m (concat chunks) R d"
  by (induction chunks arbitrary: d) (simp_all add: score_loop_def)

lemma distinct_keys_score_loop_from:
  "distinct (map fst d) \<Longrightarrow> distinct (map fst (score_loop m L R d))"
  by (simp add: score_loop_assign distinct_assign_all)

lemma merge_chunks_from:
  "distinct (map fst d) \<Longrightarrow>
   fold (\<lambda>d' acc. dict_update acc d') (map (\<lambda>c. dl_dist_func m c R) chunks) d =
     fold (\<lambda>c acc. score_loop m c R acc) chunks d"
  by (induction chunks arbitrary: d)
    (simp_all add: dict_update_dl_dist_func distinct_keys_score_loop_from)

lemma dl_dist_par_replicate:
  "dl_dist_par m chunks (replicate (length chunks) R) = map (\<lambda>c. dl_dist_func m c R) chunks"
  by (simp add: dl_dist_par_def zip_replicate2 comp_def)

lemma merge_chunks_dl_dist_par:
  "merge_chunks (dl_dist_par m chunks (replicate (length chunks) R)) = dl_dist_func m (concat chunks) R"
proof -
  have "merge_chunks (dl_dist_par m chunks (replicate (length chunks) R)) =
          fold (\<lambda>d' acc. dict_update acc d') (map (\<lambda>c. dl_dist_func m c R) chunks) []"
    by (simp only: merge_chunks_def dl_dist_par_replicate)
  also have "\<dots> = fold (\<lambda>c acc. score_loop m c R acc) chunks []"
    by (rule merge_chunks_from) simp
  also have "\<dots> = dl_dist_func m (concat chunks) R"
    by (simp only: score_loop_concat dl_dist_func_def)
  finally show ?thesis .
qed

section \<open>Claims about the scoring loop\<close>

text \<open>
  C2, as stated, fails: the left sequence \<^verbatim>\<open>["a", "a"]\<close> and the right sequence \<^verbatim>\<open>["b"]\<close>
  leave one dictionary entry, not two.
\<close>

theorem scored_pairs_count_counterexample:
  "length (dl_dist_func length_gap [''a'', ''a''] [''b'']) \<noteq> length [''a'', ''a''] * length [''b'']"
  by (simp add: dl_dist_func_def score_loop_def score_row_def)

text \<open>
  C2, amended.  The scoring pass leaves one dictionary entry for every distinct key
  \<^verbatim>\<open>f"{s1} _and_ {s2}"\<close> among the pairs of the cross product, so at most
  \<open>|L| \<times> |R|\<close> entries; it leaves exactly \<open>|L| \<times> |R|\<close> entries when neither sequence
  repeats a value and no value contains \<^verbatim>\<open>_and_\<close> (the empty string is allowed).
\<close>

theorem scored_pairs_count:
  "length (dl_dist_func m L R) = card ((\<lambda>(s1, s2). pair_key s1 s2) ` (set L \<times> set R)) \<and>
   length (dl_dist_func m L R) \<le> length L * length R \<and>
   (distinct L \<longrightarrow> distinct R \<longrightarrow> no_separator L \<longrightarrow> no_separator R \<longrightarrow>
      length (dl_dist_func m L R) = length L * length R)"
proof (intro conjI impI)
  show len: "length (dl_dist_func m L R) = card ((\<lambda>(s1, s2). pair_key s1 s2) ` (set L \<times> set R))"
    by (rule length_dl_dist_func)
  have "card ((\<lambda>(s1, s2). pair_key s1 s2) ` (set L \<times> set R)) \<le> card (set L \<times> set R)"
    by (rule card_image_le) simp
  also have "\<dots> = card (set L) * card (set R)"
    by (rule card_cartesian_product)
  also have "\<dots> \<le> length L * length R"
    by (intro mult_le_mono card_length)
  finally show "length (dl_dist_func m L R) \<le> length L * length R"
    by (simp only: len)
next
  assume "distinct L" "distinct R" "no_separator L" "no_separator R"
  then have "dl_dist_func m L R = assignments m L R"
    by (simp add: dl_dist_func_def score_loop_table pair_key_inj_on first_seen_distinct)
  then show "length (dl_dist_func m L R) = length L * length R"
    by (simp add: length_assignments)
qed

theorem scored_pairs_count_witness:
  "distinct [''a'', ''''] \<and> distinct [''b'', ''c''] \<and> no_separator [''a'', ''''] \<and>
   no_separator [''b'', ''c''] \<and> length (dl_dist_func length_gap [''a'', ''''] [''b'', ''c'']) = 4"
proof -
  have a: "no_separator [''a'', '''']" "no_separator [''b'', ''c'']"
    by (simp_all add: no_separator_def pat_and_def)
  from scored_pairs_count[of length_gap "[''a'', '''']" "[''b'', ''c'']"] a show ?thesis
    by simp
qed

text \<open>
  C7, as stated, fails: with an empty left sequence the matching pass does not return an
  empty selection.
\<close>

theorem empty_input_counterexample:
  "matching_pass sort_values_stable length_gap [] [''a'', ''b''] \<noteq> Inr []"
  by (simp add: matching_pass_def dl_dist_def select_best_def dl_dist_df_raw_def
      from_dict_width_def set_columns_def)

text \<open>
  C7, amended.  When the left or the right sequence is empty, the loops leave an empty
  dictionary without raising, and the pass then stops at line 41 with
  \<^verbatim>\<open>ValueError: Length mismatch\<close>: the frame built from the empty dictionary has one
  column where two names are assigned.  No selection is produced.
\<close>

theorem empty_input_raises:
  "L = [] \<or> R = [] \<Longrightarrow>
   dl_dist m L R = [] \<and> matching_pass srt m L R = Inl (LengthMismatch 1 2)"
  by (simp add: matching_pass_def select_best_def dl_dist_df_raw_def from_dict_width_def
      set_columns_def dl_dist_eq_func dl_dist_func_empty)

theorem empty_input_raises_witness:
  "dl_dist length_gap [] [''a'', ''b''] = [] \<and>
   matching_pass sort_values_stable length_gap [] [''a'', ''b''] = Inl (LengthMismatch 1 2)"
  using empty_input_raises[of "[]" "[''a'', ''b'']" length_gap sort_values_stable] by simp



text \<open>
  C6.  For every split of the left sequence into contiguous chunks (one, two or any number,
  empty chunks included), scoring each chunk against the whole right sequence with
  \<^verbatim>\<open>dl_dist_func\<close>, joining the chunk dictionaries and selecting gives the same outcome as
  the sequential loops on the unsplit left sequence: the same selected rows, hence the same
  pairs of left value and matched right value, or the same exception.  The one-chunk
  \<^verbatim>\<open>Parallel\<close> run of the notebook returns the dictionary of the sequential loops.
\<close>

theorem partition_invariance:
  "concat chunks = L \<Longrightarrow>
   select_best srt (merge_chunks (dl_dist_par m chunks (replicate (length chunks) R))) =
     matching_pass srt m L R \<and>
   map_sum id match_pairs
     (select_best srt (merge_chunks (dl_dist_par m chunks (replicate (length chunks) R)))) =
     map_sum id match_pairs (matching_pass srt m L R) \<and>
   dl_dist_par m [L] [R] = [dl_dist m L R]"
proof (intro conjI)
  assume "concat chunks = L"
  then show same: "select_best srt (merge_chunks (dl_dist_par m chunks (replicate (length chunks) R))) =
     matching_pass srt m L R"
    by (simp only: merge_chunks_dl_dist_par matching_pass_def dl_dist_eq_func)
  show "map_sum id match_pairs
     (select_best srt (merge_chunks (dl_dist_par m chunks (replicate (length chunks) R)))) =
     map_sum id match_pairs (matching_pass srt m L R)"
    by (simp only: same)
next
  show "dl_dist_par m [L] [R] = [dl_dist m L R]"
    by (simp add: dl_dist_par_def dl_dist_eq_func)
qed

theorem partition_invariance_witness:
  "concat [[''b''], [], [''a'', ''b'']] = [''b'', ''a'', ''b''] \<and>
   select_best sort_values_stable
     (merge_chunks (dl_dist_par length_gap [[''b''], [], [''a'', ''b'']]
        [[''xx'', ''y''], [''xx'', ''y''], [''xx'', ''y'']])) =
   matching_pass sort_values_stable length_gap [''b'', ''a'', ''b''] [''xx'', ''y'']"
  using partition_invariance[of "[[''b''], [], [''a'', ''b'']]" "[''b'', ''a'', ''b'']"
      sort_values_stable length_gap "[''xx'', ''y'']"]
  by simp

section \<open>Claims about the join\<close>

lemma merge_left_unmatched:
  assumes "l \<in> set left" "\<forall>r\<in>set right. right_on r \<noteq> left_on l"
  shows "(l, None) \<in> set (merge_left left right left_on right_on)"
    and "(l, x) \<in> set (merge_left left right left_on right_on) \<Longrightarrow> x = None"
proof -
  have f: "filter (\<lambda>r. right_on r = left_on l) right = []"
    using assms(2) by (simp add: filter_empty_conv)
  show "(l, None) \<in> set (merge_left left right left_on right_on)"
    using assms(1) f by (auto simp: merge_left_def intro!: bexI[of _ l])
  show "x = None" if "(l, x) \<in> set (merge_left left right left_on right_on)"
  proof -
    from that obtain l' where l': "l' \<in> set left"
      and mem: "(l, x) \<in> set (case filter (\<lambda>r. right_on r = left_on l') right of
                               [] \<Rightarrow> [(l', None)] | ms \<Rightarrow> map (\<lambda>r. (l', Some r)) ms)"
      by (auto simp: merge_left_def)
    show ?thesis
    proof (cases "filter (\<lambda>r. right_on r = left_on l') right")
      case Nil
      then show ?thesis using mem by simp
    next
      case (Cons r rs)
      then have "l = l'" using mem by auto
      then show ?thesis using f Cons by simp
    qed
  qed
qed

lemma length_merge_left: "length left \<le> length (merge_left left right left_on right_on)"
proof (induction left)
  case Nil
  show ?case by (simp add: merge_left_def)
next
  case (Cons l left)
  have "1 \<le> length (case filter (\<lambda>r. right_on r = left_on l) right of
                       [] \<Rightarrow> [(l, None)] | ms \<Rightarrow> map (\<lambda>r. (l, Some r)) ms)"
    by (simp split: list.splits)
  then show ?case using Cons by (simp add: merge_left_def)
qed

text \<open>
  C8.  A row of \<^verbatim>\<open>data_both\<close> whose stripped \<^verbatim>\<open>address_2\<close> equals the stripped
  \<^verbatim>\<open>Address\<close> of no row of \<^verbatim>\<open>data2\<close> appears in \<^verbatim>\<open>data_fin\<close> with its right-side fields
  missing, and only so; the merge raises nothing and drops no row of \<^verbatim>\<open>data_both\<close>.
\<close>

theorem unmatched_right_lookup:
  assumes "b \<in> set data_both"
    and "\<forall>t\<in>set data2. Some (strip (Address t)) \<noteq> map_option strip (address_2 (snd b))"
  shows "(strip_address_2 b, None) \<in> set (data_fin data_both data2) \<and>
         (\<forall>x. (strip_address_2 b, x) \<in> set (data_fin data_both data2) \<longrightarrow> x = None) \<and>
         length data_both \<le> length (data_fin data_both data2)"
proof -
  have a: "strip_address_2 b \<in> set (map strip_address_2 data_both)"
    using assms(1) by simp
  have c: "\<forall>t\<in>set (map strip_Address data2). Some (Address t) \<noteq> address_2 (snd (strip_address_2 b))"
    using assms(2) by (simp add: strip_Address_def strip_address_2_def)
  show ?thesis
    unfolding data_fin_def
    using merge_left_unmatched[of "strip_address_2 b" "map strip_address_2 data_both"
        "map strip_Address data2" "\<lambda>t. Some (Address t)" "\<lambda>b. address_2 (snd b)", OF a c]
      length_merge_left[of "map strip_address_2 data_both" "map strip_Address data2"
        "\<lambda>b. address_2 (snd b)" "\<lambda>t. Some (Address t)"]
    by auto
qed

theorem unmatched_right_lookup_witness:
  "(strip_address_2 ((), \<lparr>idx = 0, dist = 1, address_1 = Some ''a'', address_2 = Some '' b''\<rparr>), None)
     \<in> set (data_fin [((), \<lparr>idx = 0, dist = 1, address_1 = Some ''a'', address_2 = Some '' b''\<rparr>)]
                [\<lparr>Address = ''c '', others = ()\<rparr>])"
proof -
  have "strip ''c '' \<noteq> strip '' b''"
    by (simp add: strip_def isspace_def)
  then show ?thesis
    using unmatched_right_lookup[of "((), \<lparr>idx = 0, dist = 1, address_1 = Some ''a'', address_2 = Some '' b''\<rparr>)"
        "[((), \<lparr>idx = 0, dist = 1, address_1 = Some ''a'', address_2 = Some '' b''\<rparr>)]"
        "[\<lparr>Address = ''c '', others = ()\<rparr>]"]
    by simp
qed


section \<open>The selection step\<close>

lemma sort_ok_set: "sort_values_ok srt \<Longrightarrow> set (srt g) = set g"
  unfolding sort_values_ok_def by (metis set_mset_mset)

lemma sort_ok_length: "sort_values_ok srt \<Longrightarrow> length (srt g) = length g"
  unfolding sort_values_ok_def by (metis size_mset)

lemma sort_ok_sorted: "sort_values_ok srt \<Longrightarrow> sorted (map dist (srt g))"
  unfolding sort_values_ok_def by simp

lemma sort_ok_single: "sort_values_ok srt \<Longrightarrow> srt [r] = [r]"
  unfolding sort_values_ok_def by (metis mset_single_iff_right)

lemma sort_ok_take:
  assumes "sort_values_ok srt" "g \<noteq> []"
  shows "take 1 (srt g) = [hd (srt g)]"
proof -
  have "srt g \<noteq> []" using sort_ok_length[OF assms(1), of g] assms(2) by auto
  then show ?thesis by (cases "srt g") simp_all
qed

lemma sort_ok_hd:
  assumes "sort_values_ok srt" "g \<noteq> []"
  shows "hd (srt g) \<in> set g" and "\<forall>q\<in>set g. dist (hd (srt g)) \<le> dist q"
proof -
  have ne: "srt g \<noteq> []" using sort_ok_length[OF assms(1), of g] assms(2) by auto
  then obtain r rs where rs: "srt g = r # rs" by (cases "srt g") auto
  show "hd (srt g) \<in> set g"
    using sort_ok_set[OF assms(1), of g] rs by auto
  have "\<forall>q\<in>set (srt g). dist (hd (srt g)) \<le> dist q"
    using sort_ok_sorted[OF assms(1), of g] rs by auto
  then show "\<forall>q\<in>set g. dist (hd (srt g)) \<le> dist q"
    by (simp only: sort_ok_set[OF assms(1)])
qed

lemma sort_values_stable_ok: "sort_values_ok sort_values_stable"
  by (simp add: sort_values_ok_def sort_values_stable_def)


lemma set_group_keys: "set (group_keys df) = {k. \<exists>r\<in>set df. address_1 r = Some k}"
  by (auto simp: group_keys_def List.map_filter_def image_iff) force

lemma get_group_not_Nil: "k \<in> set (group_keys df) \<Longrightarrow> get_group df k \<noteq> []"
  by (auto simp: set_group_keys get_group_def filter_empty_conv)


lemma mutated_iff:
  assumes ok: "sort_values_ok srt"
  shows "list_ex (\<lambda>g. map idx (take 1 (srt g)) \<noteq> map idx g) (map (get_group df) (group_keys df)) \<longleftrightarrow>
         (\<exists>k\<in>set (group_keys df). 2 \<le> length (get_group df k))"
proof -
  have "map idx (take 1 (srt (get_group df k))) \<noteq> map idx (get_group df k) \<longleftrightarrow>
        2 \<le> length (get_group df k)" if "k \<in> set (group_keys df)" for k
  proof (cases "get_group df k")
    case Nil
    then show ?thesis using get_group_not_Nil[OF that] by simp
  next
    case (Cons r rs)
    show ?thesis
    proof (cases rs)
      case Nil
      then show ?thesis using Cons by (simp add: sort_ok_single[OF ok])
    next
      case (Cons r' rs')
      have "length (map idx (take 1 (srt (get_group df k)))) \<le> 1" by simp
      moreover have "length (map idx (get_group df k)) \<ge> 2"
        using \<open>get_group df k = r # rs\<close> Cons by simp
      ultimately have "map idx (take 1 (srt (get_group df k))) \<noteq> map idx (get_group df k)"
        by (metis numeral_le_one_iff order_trans semiring_norm(69))
      then show ?thesis using \<open>get_group df k = r # rs\<close> Cons by simp
    qed
  qed
  then show ?thesis by (auto simp: list_ex_iff)
qed

lemma reindex_same:
  assumes "distinct (map idx df)" "set rows = set df"
  shows "reindex (map idx df) rows = df"
proof -
  have f: "find (\<lambda>r'. idx r' = idx r) rows = Some r" if "r \<in> set df" for r
  proof -
    have "r \<in> set rows" using that assms(2) by simp
    then obtain r' where r': "find (\<lambda>r'. idx r' = idx r) rows = Some r'"
      by (cases "find (\<lambda>r'. idx r' = idx r) rows") (auto simp: find_None_iff)
    then have "r' \<in> set rows" "idx r' = idx r"
      by (auto simp: find_Some_iff)
    then have "r' = r"
      using assms that by (auto simp: distinct_map inj_on_def)
    then show ?thesis using r' by simp
  qed
  have "reindex (map idx df) rows = List.map_filter (\<lambda>r. find (\<lambda>r'. idx r' = idx r) rows) df"
    by (simp add: reindex_def List.map_filter_def filter_map comp_def)
  also have "\<dots> = List.map_filter Some df"
    using f by (simp add: List.map_filter_def cong: map_cong filter_cong)
  also have "\<dots> = df"
    by (simp add: List.map_filter_def)
  finally show ?thesis .
qed


lemma concat_singletons: "\<forall>x\<in>set xs. f x = [g x] \<Longrightarrow> concat (map f xs) = map g xs"
  by (induction xs) simp_all

lemma groupby_apply_take:
  assumes ok: "sort_values_ok srt" and di: "distinct (map idx df)"
  shows "groupby_apply (\<lambda>g. take 1 (srt g)) df =
           map (\<lambda>k. hd (srt (get_group df k)))
             (if \<exists>k\<in>set (group_keys df). 2 \<le> length (get_group df k) then group_keys df
              else List.map_filter address_1 df)"
proof (cases "\<exists>k\<in>set (group_keys df). 2 \<le> length (get_group df k)")
  case True
  have "concat (map (\<lambda>k. take 1 (srt (get_group df k))) (group_keys df)) =
          map (\<lambda>k. hd (srt (get_group df k))) (group_keys df)"
    by (rule concat_singletons) (blast intro: sort_ok_take[OF ok get_group_not_Nil])
  then show ?thesis
    using True mutated_iff[OF ok, of df] by (simp add: groupby_apply_def Let_def comp_def)
next
  case False
  let ?df' = "filter (\<lambda>r. address_1 r \<noteq> None) df"
  have single: "get_group df k = [r]" if "r \<in> set df" "address_1 r = Some k" for r k
  proof -
    have k: "k \<in> set (group_keys df)" using that by (auto simp: set_group_keys)
    then have "length (get_group df k) < 2" using False by auto
    moreover have "r \<in> set (get_group df k)" using that by (simp add: get_group_def)
    ultimately show ?thesis
      by (cases "get_group df k") (auto simp: less_Suc_eq numeral_2_eq_2)
  qed
  have groups: "map (\<lambda>g. take 1 (srt g)) (map (get_group df) (group_keys df)) =
                map (get_group df) (group_keys df)"
  proof (rule map_idI)
    fix g assume "g \<in> set (map (get_group df) (group_keys df))"
    then obtain k where k: "k \<in> set (group_keys df)" "g = get_group df k" by auto
    then obtain r where "r \<in> set df" "address_1 r = Some k" by (auto simp: set_group_keys)
    then have "g = [r]" using single k by simp
    then show "take 1 (srt g) = g" by (simp add: sort_ok_single[OF ok])
  qed
  have "set (concat (map (get_group df) (group_keys df))) = set ?df'"
    by (auto simp: set_group_keys get_group_def)
  moreover have "distinct (map idx ?df')"
    using di by (rule distinct_map_filter)
  ultimately have a: "reindex (map idx ?df') (concat (map (get_group df) (group_keys df))) = ?df'"
    by (intro reindex_same)
  have "map (\<lambda>k. hd (srt (get_group df k))) (List.map_filter address_1 df) =
          map (\<lambda>r. hd (srt (get_group df (the (address_1 r))))) ?df'"
    by (simp add: List.map_filter_def comp_def)
  also have "\<dots> = map (\<lambda>r. r) ?df'"
  proof (rule map_cong[OF refl])
    fix r assume "r \<in> set ?df'"
    then obtain k where "r \<in> set df" "address_1 r = Some k" by auto
    then show "hd (srt (get_group df (the (address_1 r)))) = r"
      using single[of r k] by (simp add: sort_ok_single[OF ok])
  qed
  finally have b: "map (\<lambda>k. hd (srt (get_group df k))) (List.map_filter address_1 df) = ?df'"
    by simp
  have nm: "\<not> list_ex (\<lambda>g. map idx (take 1 (srt g)) \<noteq> map idx g) (map (get_group df) (group_keys df))"
    using False mutated_iff[OF ok, of df] by blast
  have "groupby_apply (\<lambda>g. take 1 (srt g)) df =
          reindex (map idx ?df') (concat (map (\<lambda>g. take 1 (srt g)) (map (get_group df) (group_keys df))))"
    unfolding groupby_apply_def Let_def using nm by (simp only: if_False)
  also have "\<dots> = ?df'"
    by (simp only: groups a)
  also have "\<dots> = map (\<lambda>k. hd (srt (get_group df k))) (List.map_filter address_1 df)"
    by (simp only: b)
  finally show ?thesis
    using False by (simp only: if_False)
qed

section \<open>The table of scored pairs\<close>

lemma enumerate_map: "enumerate n (map f xs) = map (\<lambda>(i, x). (i, f x)) (enumerate n xs)"
  by (induction xs arbitrary: n) simp_all

lemma assignments_product:
  "assignments m L R = map (\<lambda>p. (pair_key (fst p) (snd p), m (fst p) (snd p))) (List.product L R)"
  by (induction L) (simp_all add: assignments_def comp_def)

lemma fold_max_const:
  "\<forall>x\<in>set xs. x = n \<Longrightarrow> fold max xs (a::nat) = (if xs = [] then a else max a n)"
  by (induction xs arbitrary: a) (auto simp: max.assoc max.commute)

lemma in_set_enumerateD: "(i, p) \<in> set (enumerate n xs) \<Longrightarrow> p \<in> set xs"
  by (auto simp: enumerate_eq_zip dest: set_zip_rightD)

lemma split_width_ge: "ps \<in> set pieces \<Longrightarrow> length ps \<le> split_width pieces"
proof -
  have "\<And>a. x \<in> set xs \<Longrightarrow> x \<le> fold max xs (a::nat)" for x xs
  proof (induction xs)
    case Nil then show ?case by simp
  next
    case (Cons y ys)
    have mono: "\<And>a. a \<le> fold max ys (a::nat)"
    proof (induction ys)
      case Nil show ?case by simp
    next
      case (Cons z zs)
      show ?case using Cons[of "max z a"] by simp
    qed
    show ?case
    proof (cases "x = y")
      case True
      then show ?thesis using mono[of "max y a"] by simp
    next
      case False
      then show ?thesis using Cons by simp
    qed
  qed
  then show "ps \<in> set pieces \<Longrightarrow> length ps \<le> split_width pieces"
    by (simp add: split_width_def)
qed

lemma dl_dist_table:
  assumes "no_separator L" "no_separator R"
  shows "dl_dist m L R =
     map (\<lambda>p. (pair_key (fst p) (snd p), m (fst p) (snd p))) (List.product (first_seen L) (first_seen R))"
  using score_loop_table[OF pair_key_inj_on[OF assms], of m]
  by (simp add: dl_dist_eq_func dl_dist_func_def assignments_product)

lemma select_best_table:
  assumes "L \<noteq> []" "R \<noteq> []" "no_separator L" "no_separator R"
  shows "matching_pass srt m L R = Inr (dl_dist_fin srt (scored_rows m L R))"
proof -
  let ?pairs = "List.product (first_seen L) (first_seen R)"
  let ?raw = "map (\<lambda>(i, p). \<lparr>idx = i, dist = m (fst p) (snd p), addresses = pair_key (fst p) (snd p)\<rparr>)
                (enumerate 0 ?pairs)"
  have ne: "?pairs \<noteq> []"
    using assms(1,2) by (simp add: length_first_seen card_gt_0_iff flip: length_greater_0_conv)
  have d: "dl_dist m L R = map (\<lambda>p. (pair_key (fst p) (snd p), m (fst p) (snd p))) ?pairs"
    by (rule dl_dist_table[OF assms(3,4)])
  have raw: "dl_dist_df_raw (dl_dist m L R) = Inr ?raw"
    using ne by (simp add: d dl_dist_df_raw_def from_dict_width_def set_columns_def enumerate_map
        split_def comp_def)
  have split: "str_split pat_and (pair_key (fst p) (snd p)) = [fst p @ '' '', '' '' @ snd p]"
    if "(i, p) \<in> set (enumerate 0 ?pairs)" for i p
  proof -
    have "fst p \<in> set L" "snd p \<in> set R"
      using in_set_enumerateD[OF that] by (auto simp: mem_Times_iff)
    then show ?thesis
      using assms(3,4) by (simp add: no_separator_def str_split_pair_key)
  qed
  have pieces: "\<forall>x\<in>set (map length (map (\<lambda>r. str_split pat_and (addresses r)) ?raw)). x = 2"
    using split by auto
  have width: "split_width (map (\<lambda>r. str_split pat_and (addresses r)) ?raw) = 2"
  proof -
    have "enumerate 0 ?pairs \<noteq> []"
      using ne by (cases ?pairs) simp_all
    then show ?thesis
      unfolding split_width_def using fold_max_const[OF pieces, of 0] by simp
  qed
  have rows: "map (\<lambda>r. let ps = str_split pat_and (addresses r)
                 in \<lparr>idx = idx r, dist = dist r, address_1 = cell ps 0, address_2 = cell ps 1\<rparr>) ?raw
              = scored_rows m L R"
    unfolding scored_rows_def map_map
    using split
    by (intro map_cong[OF refl]) (auto simp: scored_row_def cell_def)
  have proc: "dl_dist_df_proc ?raw = Inr (scored_rows m L R)"
    unfolding dl_dist_df_proc_def width rows by (simp add: set_columns_def)
  show ?thesis
    by (simp only: matching_pass_def select_best_def raw proc sum.case)
qed


lemma contains_append_right: "contains pat t \<Longrightarrow> contains pat (u @ t)"
  by (induction u) simp_all

lemma str_split_match: "pat \<noteq> [] \<Longrightarrow> contains pat s \<Longrightarrow> 2 \<le> length (str_split pat s)"
proof (induction s)
  case Nil
  then show ?case by simp
next
  case (Cons c cs)
  show ?case
  proof (cases "prefix pat (c # cs)")
    case True
    have "1 \<le> length (str_split pat (drop (length pat - 1) cs))"
      using str_split_not_Nil[of pat "drop (length pat - 1) cs"]
      by (cases "str_split pat (drop (length pat - 1) cs)") simp_all
    then show ?thesis using True by simp
  next
    case False
    then have "2 \<le> length (str_split pat cs)" using Cons by simp
    then show ?thesis using False by (auto split: list.splits)
  qed
qed

lemma str_split_two_matches:
  "contains pat_and s1 \<Longrightarrow> contains pat_and t \<Longrightarrow>
   3 \<le> length (str_split pat_and (s1 @ CHR '' '' # t))"
proof (induction s1)
  case Nil
  then show ?case by (simp add: pat_and_def)
next
  case (Cons c cs)
  show ?case
  proof (cases "prefix pat_and ((c # cs) @ CHR '' '' # t)")
    case True
    then have "prefix pat_and (c # cs)" by (rule prefix_pat_and_blank)
    then have "length pat_and \<le> length (c # cs)"
      by (rule prefix_length_le)
    then have "length pat_and - 1 \<le> length cs"
      by simp
    then have "drop (length pat_and - 1) (cs @ CHR '' '' # t) =
                 drop (length pat_and - 1) cs @ CHR '' '' # t"
      by simp
    moreover have "contains pat_and (drop (length pat_and - 1) cs @ CHR '' '' # t)"
      using contains_append_right[OF Cons.prems(2), of "drop (length pat_and - 1) cs @ '' ''"]
      by simp
    moreover have "pat_and \<noteq> []"
      by (simp add: pat_and_def)
    ultimately have "2 \<le> length (str_split pat_and (drop (length pat_and - 1) (cs @ CHR '' '' # t)))"
      using str_split_match by simp
    then show ?thesis using True by simp
  next
    case False
    then have "\<not> prefix pat_and (c # cs)"
      using prefix_prefix[of pat_and "c # cs" "CHR '' '' # t"] by blast
    then have "contains pat_and cs" using Cons.prems(1) by simp
    then have "3 \<le> length (str_split pat_and (cs @ CHR '' '' # t))"
      using Cons by simp
    then show ?thesis using False by (auto split: list.splits)
  qed
qed

lemma str_split_long:
  assumes "contains pat_and s1 \<or> contains pat_and s2"
  shows "3 \<le> length (str_split pat_and (pair_key s1 s2))"
proof (cases "contains pat_and s1")
  case True
  have "contains pat_and (''_and_ '' @ s2)"
    by (simp add: pat_and_def)
  from str_split_two_matches[OF True this] show ?thesis
    unfolding pair_key_def by simp
next
  case False
  then have "contains pat_and s2" using assms by simp
  then have "contains pat_and (CHR '' '' # s2)" by simp
  then have "2 \<le> length (str_split pat_and (CHR '' '' # s2))"
    by (intro str_split_match) (simp_all add: pat_and_def)
  moreover have "str_split pat_and (CHR '' '' # ''_and_ '' @ s2) =
                   '' '' # str_split pat_and (CHR '' '' # s2)"
    by (simp add: pat_and_def)
  ultimately have "3 \<le> length (str_split pat_and (CHR '' '' # ''_and_ '' @ s2))"
    by simp
  moreover have "length (str_split pat_and (s1 @ CHR '' '' # ''_and_ '' @ s2)) =
                 length (str_split pat_and (CHR '' '' # ''_and_ '' @ s2))"
    unfolding str_split_left[OF False, of "''_and_ '' @ s2"]
    by (simp split: list.splits)
  ultimately show ?thesis
    unfolding pair_key_def by simp
qed

lemma matching_pass_InrD:
  assumes "matching_pass srt m L R = Inr fin"
  shows "L \<noteq> [] \<and> R \<noteq> [] \<and> no_separator L \<and> no_separator R"
proof -
  have ne: "L \<noteq> [] \<and> R \<noteq> []"
  proof (rule ccontr)
    assume "\<not> (L \<noteq> [] \<and> R \<noteq> [])"
    then have "dl_dist m L R = []"
      by (simp add: dl_dist_eq_func dl_dist_func_empty)
    then show False using assms
      by (simp add: matching_pass_def select_best_def dl_dist_df_raw_def from_dict_width_def
          set_columns_def)
  qed
  have "\<not> contains pat_and s1 \<and> \<not> contains pat_and s2" if "s1 \<in> set L" "s2 \<in> set R" for s1 s2
  proof (rule ccontr)
    assume "\<not> (\<not> contains pat_and s1 \<and> \<not> contains pat_and s2)"
    then have long: "3 \<le> length (str_split pat_and (pair_key s1 s2))"
      using str_split_long by blast
    let ?d = "dl_dist m L R"
    let ?raw = "map (\<lambda>(i, (k, v)). \<lparr>idx = i, dist = v, addresses = k\<rparr>) (enumerate 0 ?d)"
    have "pair_key s1 s2 \<in> fst ` set ?d"
      using that by (auto simp: dl_dist_eq_func dl_dist_func_def set_keys_score_loop)
    then obtain v where "(pair_key s1 s2, v) \<in> set (map snd (enumerate 0 ?d))"
      by auto
    then obtain i where "(i, pair_key s1 s2, v) \<in> set (enumerate 0 ?d)"
      by (auto simp del: map_snd_enumerate)
    then have "\<lparr>idx = i, dist = v, addresses = pair_key s1 s2\<rparr> \<in> set ?raw"
      by force
    then have "str_split pat_and (pair_key s1 s2) \<in> set (map (\<lambda>r. str_split pat_and (addresses r)) ?raw)"
      by force
    then have "3 \<le> split_width (map (\<lambda>r. str_split pat_and (addresses r)) ?raw)"
      using long split_width_ge by (meson order_trans)
    then have "dl_dist_df_proc ?raw =
                 Inl (LengthMismatch (split_width (map (\<lambda>r. str_split pat_and (addresses r)) ?raw)) 2)"
      by (simp add: dl_dist_df_proc_def set_columns_def)
    then show False using assms
      by (auto simp: matching_pass_def select_best_def dl_dist_df_raw_def set_columns_def
          split: if_splits)
  qed
  then show ?thesis using ne
    by (cases L; cases R) (auto simp: no_separator_def)
qed

lemma idx_scored_rows: "map idx (scored_rows m L R) = [0..<length (first_seen L) * length (first_seen R)]"
proof -
  have "map idx (scored_rows m L R) =
          map fst (enumerate 0 (List.product (first_seen L) (first_seen R)))"
    unfolding scored_rows_def map_map
    by (rule map_cong[OF refl]) (auto simp: scored_row_def)
  then show ?thesis by simp
qed

lemma distinct_idx_scored_rows: "distinct (map idx (scored_rows m L R))"
  by (simp add: idx_scored_rows)

lemma map_filter_enumerate:
  "map (f \<circ> snd) (filter (Q \<circ> snd) (enumerate n xs)) = map f (filter Q xs)"
proof -
  have "map f (filter Q (map snd (enumerate n xs))) = map (f \<circ> snd) (filter (Q \<circ> snd) (enumerate n xs))"
    by (simp only: filter_map map_map)
  then show ?thesis by simp
qed

lemma filter_product_fst:
  "distinct xs \<Longrightarrow> s \<in> set xs \<Longrightarrow> filter (\<lambda>p. fst p = s) (List.product xs ys) = map (Pair s) ys"
proof (induction xs)
  case Nil
  then show ?case by simp
next
  case (Cons x xs)
  have none: "filter (\<lambda>p. fst p = s) (List.product xs ys) = []" if "s \<notin> set xs"
    using that by (auto simp: filter_empty_conv)
  show ?case
  proof (cases "x = s")
    case True
    then have "s \<notin> set xs" using Cons.prems by simp
    then show ?thesis using True none by (simp add: filter_map comp_def)
  next
    case False
    then have "filter (\<lambda>p. fst p = s) (map (Pair x) ys) = []"
      by (auto simp: filter_empty_conv)
    then show ?thesis using False Cons by simp
  qed
qed

text \<open>The cells of the rows of one group, in frame order.\<close>

lemma get_group_scored_rows:
  assumes "s1 \<in> set L"
  shows "map (\<lambda>r. (address_2 r, dist r)) (get_group (scored_rows m L R) (s1 @ '' '')) =
         map (\<lambda>s2. (Some ('' '' @ s2), m s1 s2)) (first_seen R)"
proof -
  let ?pairs = "List.product (first_seen L) (first_seen R)"
  have "get_group (scored_rows m L R) (s1 @ '' '') =
          map (\<lambda>(i, p). scored_row m i p) (filter ((\<lambda>p. fst p = s1) \<circ> snd) (enumerate 0 ?pairs))"
    unfolding get_group_def scored_rows_def filter_map
    by (rule arg_cong[where f = "map _"], rule filter_cong[OF refl]) (auto simp: scored_row_def)
  then have "map (\<lambda>r. (address_2 r, dist r)) (get_group (scored_rows m L R) (s1 @ '' '')) =
          map ((\<lambda>p. (Some ('' '' @ snd p), m (fst p) (snd p))) \<circ> snd)
            (filter ((\<lambda>p. fst p = s1) \<circ> snd) (enumerate 0 ?pairs))"
    by (simp add: scored_row_def comp_def split_def)
  also have "\<dots> = map (\<lambda>p. (Some ('' '' @ snd p), m (fst p) (snd p))) (filter (\<lambda>p. fst p = s1) ?pairs)"
    by (rule map_filter_enumerate)
  also have "\<dots> = map (\<lambda>s2. (Some ('' '' @ s2), m s1 s2)) (first_seen R)"
    using assms by (simp add: filter_product_fst comp_def)
  finally show ?thesis .
qed

lemma length_get_group_scored_rows:
  assumes "s1 \<in> set L"
  shows "length (get_group (scored_rows m L R) (s1 @ '' '')) = card (set R)"
  using arg_cong[OF get_group_scored_rows[OF assms, of m R], of length]
  by (simp add: length_first_seen)

lemma keys_scored_rows:
  "List.map_filter address_1 (scored_rows m L R) =
     map (\<lambda>p. fst p @ '' '') (List.product (first_seen L) (first_seen R))"
proof -
  have "List.map_filter address_1 (scored_rows m L R) =
          map ((\<lambda>p. fst p @ '' '') \<circ> snd) (enumerate 0 (List.product (first_seen L) (first_seen R)))"
    by (simp add: List.map_filter_def scored_rows_def scored_row_def comp_def split_def)
  then show ?thesis by (simp only: map_map[symmetric] map_snd_enumerate)
qed

lemma set_keys_scored_rows:
  "R \<noteq> [] \<Longrightarrow> set (List.map_filter address_1 (scored_rows m L R)) = (\<lambda>s. s @ '' '') ` set L"
proof -
  assume "R \<noteq> []"
  then obtain r where "r \<in> set R" by (cases R) auto
  then show ?thesis
    by (force simp: keys_scored_rows image_iff)
qed

lemma group_keys_scored_rows:
  "R \<noteq> [] \<Longrightarrow> group_keys (scored_rows m L R) = sort (remdups (map (\<lambda>s. s @ '' '') L))"
proof -
  assume R: "R \<noteq> []"
  have "group_keys (scored_rows m L R) =
          sorted_list_of_set (set (List.map_filter address_1 (scored_rows m L R)))"
    by (simp only: group_keys_def sorted_list_of_set_sort_remdups)
  also have "\<dots> = sorted_list_of_set (set (map (\<lambda>s. s @ '' '') L))"
    by (simp add: set_keys_scored_rows[OF R])
  finally show ?thesis
    by (simp only: sorted_list_of_set_sort_remdups)
qed

lemma keys_scored_rows_single:
  assumes "card (set R) = 1"
  shows "List.map_filter address_1 (scored_rows m L R) = map (\<lambda>s. s @ '' '') (first_seen L)"
proof -
  have "length (first_seen R) = 1" using assms by (simp add: length_first_seen)
  then obtain r where "first_seen R = [r]"
    by (cases "first_seen R") auto
  moreover have "map (\<lambda>p. fst p @ '' '') (List.product xs [r]) = map (\<lambda>s. s @ '' '') xs"
    for xs :: "string list"
    by (induction xs) simp_all
  ultimately show ?thesis
    by (simp add: keys_scored_rows)
qed

lemma fields_reset_index_drop:
  "map (\<lambda>r. (address_1 r, address_2 r, dist r)) (reset_index_drop rows) =
   map (\<lambda>r. (address_1 r, address_2 r, dist r)) rows"
proof -
  have "map (\<lambda>r. (address_1 r, address_2 r, dist r)) (reset_index_drop rows) =
        map ((\<lambda>r. (address_1 r, address_2 r, dist r)) \<circ> snd) (enumerate 0 rows)"
    unfolding reset_index_drop_def map_map
    by (rule map_cong[OF refl]) auto
  then show ?thesis by (simp only: map_map[symmetric] map_snd_enumerate)
qed

lemma set_selected_keys: "set (selected_keys L R) = (\<lambda>s. s @ '' '') ` set L"
  by (simp add: selected_keys_def)

lemma groupby_apply_scored_rows:
  assumes ok: "sort_values_ok srt" and ne: "L \<noteq> []" "R \<noteq> []"
  shows "groupby_apply (\<lambda>g. take 1 (srt g)) (scored_rows m L R) =
           map (\<lambda>k. hd (srt (get_group (scored_rows m L R) k))) (selected_keys L R)"
proof -
  let ?P = "scored_rows m L R"
  have keys: "set (group_keys ?P) = (\<lambda>s. s @ '' '') ` set L"
    by (simp add: group_keys_scored_rows[OF ne(2)])
  have "(\<exists>k\<in>set (group_keys ?P). 2 \<le> length (get_group ?P k)) \<longleftrightarrow>
        (\<exists>s1\<in>set L. 2 \<le> length (get_group ?P (s1 @ '' '')))"
    unfolding keys by simp
  also have "\<dots> \<longleftrightarrow> (\<exists>s1\<in>set L. 2 \<le> card (set R))"
    by (simp add: length_get_group_scored_rows)
  also have "\<dots> \<longleftrightarrow> 2 \<le> card (set R)"
    using ne(1) by (cases L) auto
  finally have "(\<exists>k\<in>set (group_keys ?P). 2 \<le> length (get_group ?P k)) \<longleftrightarrow> 2 \<le> card (set R)" .
  moreover have "card (set R) = 1" if "\<not> 2 \<le> card (set R)"
  proof -
    have "0 < card (set R)" using ne(2) by (simp add: card_gt_0_iff)
    then show ?thesis using that by simp
  qed
  ultimately show ?thesis
    unfolding groupby_apply_take[OF ok distinct_idx_scored_rows] selected_keys_def
    by (simp add: group_keys_scored_rows[OF ne(2)] keys_scored_rows_single)
qed

lemma dl_dist_fin_scored_rows:
  assumes ok: "sort_values_ok srt" and ne: "L \<noteq> []" "R \<noteq> []"
  shows "map (\<lambda>r. (address_1 r, address_2 r, dist r)) (dl_dist_fin srt (scored_rows m L R)) =
         map (\<lambda>k. (Some k, address_2 (hd (srt (get_group (scored_rows m L R) k))),
                     dist (hd (srt (get_group (scored_rows m L R) k))))) (selected_keys L R)"
proof -
  let ?P = "scored_rows m L R"
  have a1: "address_1 (hd (srt (get_group ?P k))) = Some k" if "k \<in> set (selected_keys L R)" for k
  proof -
    have "k \<in> set (group_keys ?P)"
      using that by (simp add: set_selected_keys group_keys_scored_rows[OF ne(2)])
    then have "hd (srt (get_group ?P k)) \<in> set (get_group ?P k)"
      by (intro sort_ok_hd(1)[OF ok] get_group_not_Nil)
    then show ?thesis by (simp add: get_group_def)
  qed
  have "map (\<lambda>r. (address_1 r, address_2 r, dist r)) (dl_dist_fin srt ?P) =
        map ((\<lambda>r. (address_1 r, address_2 r, dist r)) \<circ> (\<lambda>k. hd (srt (get_group ?P k)))) (selected_keys L R)"
    by (simp only: dl_dist_fin_def fields_reset_index_drop groupby_apply_scored_rows[OF ok ne] map_map)
  also have "\<dots> = map (\<lambda>k. (Some k, address_2 (hd (srt (get_group ?P k))),
                     dist (hd (srt (get_group ?P k))))) (selected_keys L R)"
    by (rule map_cong[OF refl]) (simp add: a1)
  finally show ?thesis .
qed

text \<open>What the selected row of one left value holds.\<close>

lemma selected_row:
  assumes ok: "sort_values_ok srt" and s1: "s1 \<in> set L" and R: "R \<noteq> []"
  shows "\<exists>s2\<in>set R. address_2 (hd (srt (get_group (scored_rows m L R) (s1 @ '' ''))))  = Some ('' '' @ s2) \<and>
           dist (hd (srt (get_group (scored_rows m L R) (s1 @ '' '')))) = m s1 s2 \<and>
           (\<forall>s2'\<in>set R. m s1 s2 \<le> m s1 s2')"
proof -
  let ?g = "get_group (scored_rows m L R) (s1 @ '' '')"
  let ?h = "hd (srt ?g)"
  have cells: "map (\<lambda>r. (address_2 r, dist r)) ?g = map (\<lambda>s2. (Some ('' '' @ s2), m s1 s2)) (first_seen R)"
    by (rule get_group_scored_rows[OF s1])
  have "first_seen R \<noteq> []" using R by (metis set_first_seen set_empty)
  then have g: "?g \<noteq> []" using cells by auto
  have h: "?h \<in> set ?g" and least: "\<forall>q\<in>set ?g. dist ?h \<le> dist q"
    using sort_ok_hd[OF ok g] by simp_all
  have "(address_2 ?h, dist ?h) \<in> set (map (\<lambda>r. (address_2 r, dist r)) ?g)"
    using h by (simp only: set_map image_eqI)
  then obtain s2 where s2: "s2 \<in> set R" "address_2 ?h = Some ('' '' @ s2)" "dist ?h = m s1 s2"
    unfolding cells by auto
  have "m s1 s2 \<le> m s1 s2'" if "s2' \<in> set R" for s2'
  proof -
    have "(Some ('' '' @ s2'), m s1 s2') \<in> set (map (\<lambda>r. (address_2 r, dist r)) ?g)"
      unfolding cells using that by auto
    then obtain q where "q \<in> set ?g" "dist q = m s1 s2'" by auto
    then show ?thesis using least s2(3) by auto
  qed
  then show ?thesis using s2 by blast
qed

section \<open>Ties\<close>











lemma fin_fields:
  assumes ok: "sort_values_ok srt" and pass: "matching_pass srt m L R = Inr fin"
  shows "map (\<lambda>r. (address_1 r, address_2 r, dist r)) fin =
         map (\<lambda>k. (Some k, address_2 (hd (srt (get_group (scored_rows m L R) k))),
                     dist (hd (srt (get_group (scored_rows m L R) k))))) (selected_keys L R)"
proof -
  have c: "L \<noteq> []" "R \<noteq> []" "no_separator L" "no_separator R"
    using matching_pass_InrD[OF pass] by simp_all
  have "fin = dl_dist_fin srt (scored_rows m L R)"
    using pass select_best_table[OF c, of srt m] by simp
  then show ?thesis
    by (simp only: dl_dist_fin_scored_rows[OF ok c(1,2)])
qed

lemma fin_keys:
  assumes ok: "sort_values_ok srt" and pass: "matching_pass srt m L R = Inr fin"
  shows "map address_1 fin = map Some (selected_keys L R)"
proof -
  have "map address_1 fin = map fst (map (\<lambda>r. (address_1 r, address_2 r, dist r)) fin)"
    by simp
  also have "\<dots> = map Some (selected_keys L R)"
    unfolding fin_fields[OF ok pass] by simp
  finally show ?thesis .
qed

lemma fin_row:
  assumes ok: "sort_values_ok srt" and pass: "matching_pass srt m L R = Inr fin"
    and r: "r \<in> set fin" and s1: "address_1 r = Some (s1 @ '' '')"
  shows "s1 \<in> set L \<and>
         address_2 r = address_2 (hd (srt (get_group (scored_rows m L R) (s1 @ '' '')))) \<and>
         dist r = dist (hd (srt (get_group (scored_rows m L R) (s1 @ '' ''))))"
proof -
  have "(address_1 r, address_2 r, dist r) \<in> set (map (\<lambda>r. (address_1 r, address_2 r, dist r)) fin)"
    using r by (simp only: set_map image_eqI)
  then obtain k where k: "k \<in> set (selected_keys L R)" "address_1 r = Some k"
    "address_2 r = address_2 (hd (srt (get_group (scored_rows m L R) k)))"
    "dist r = dist (hd (srt (get_group (scored_rows m L R) k)))"
    unfolding fin_fields[OF ok pass] by auto
  then have "k = s1 @ '' ''" using s1 by simp
  moreover have "s1 \<in> set L" if "s1 @ '' '' \<in> (\<lambda>s. s @ '' '') ` set L"
    using that by auto
  ultimately show ?thesis using k by (simp add: set_selected_keys)
qed

lemma selected_keys_card:
  "length (selected_keys L R) = card (set L)" "distinct (selected_keys L R)"
proof -
  have inj: "inj_on (\<lambda>s::string. s @ '' '') A" for A
    by (simp add: inj_on_def)
  have "length (sort (remdups (map (\<lambda>s. s @ '' '') L))) = card ((\<lambda>s. s @ '' '') ` set L)"
    by (simp add: length_remdups_card_conv)
  also have "\<dots> = card (set L)"
    by (rule card_image[OF inj])
  finally show "length (selected_keys L R) = card (set L)"
    by (simp add: selected_keys_def length_first_seen)
  show "distinct (selected_keys L R)"
    by (simp add: selected_keys_def distinct_map inj)
qed

section \<open>Claims about the selection\<close>

text \<open>
  C1.  Whenever the matching pass returns a selection, it holds a row for every left
  value, and the distance recorded in the row selected for a left value is one of the
  distances computed for that left value and is less than or equal to every distance
  computed for it, whichever way \<^verbatim>\<open>sort_values\<close> orders rows of equal distance.
\<close>

theorem selected_distance_minimal:
  assumes "sort_values_ok srt" and "matching_pass srt m L R = Inr fin"
  shows "(\<forall>s1\<in>set L. \<exists>r\<in>set fin. address_1 r = Some (s1 @ '' '')) \<and>
         (\<forall>r\<in>set fin. \<forall>s1. address_1 r = Some (s1 @ '' '') \<longrightarrow>
            (\<exists>s2\<in>set R. dist r = m s1 s2) \<and> (\<forall>s2\<in>set R. dist r \<le> m s1 s2))"
proof (intro conjI ballI allI impI)
  fix s1 assume "s1 \<in> set L"
  then have "Some (s1 @ '' '') \<in> set (map Some (selected_keys L R))"
    by (simp add: set_selected_keys)
  then have "Some (s1 @ '' '') \<in> set (map address_1 fin)"
    by (simp only: fin_keys[OF assms])
  then show "\<exists>r\<in>set fin. address_1 r = Some (s1 @ '' '')"
    by auto
next
  fix r s1 assume r: "r \<in> set fin" "address_1 r = Some (s1 @ '' '')"
  have c: "R \<noteq> []"
    using matching_pass_InrD[OF assms(2)] by simp
  from fin_row[OF assms r] selected_row[OF assms(1) _ c, of s1 L m]
  obtain s2 where s2: "s2 \<in> set R" "dist r = m s1 s2" "\<forall>s2'\<in>set R. m s1 s2 \<le> m s1 s2'"
    by auto
  from s2 show "\<exists>s2\<in>set R. dist r = m s1 s2" by blast
  fix s2' assume "s2' \<in> set R"
  then show "dist r \<le> m s1 s2'" using s2 by simp
qed

theorem selected_distance_minimal_witness:
  "sort_values_ok sort_values_stable \<and>
   matching_pass sort_values_stable length_gap [''ab'', ''c''] [''x'', ''yz''] =
     Inr [\<lparr>idx = 0, dist = 0, address_1 = Some ''ab '', address_2 = Some '' yz''\<rparr>,
          \<lparr>idx = 1, dist = 0, address_1 = Some ''c '', address_2 = Some '' x''\<rparr>] \<and>
   dist \<lparr>idx = 0, dist = 0, address_1 = Some ''ab '', address_2 = Some '' yz''\<rparr>
     \<le> length_gap ''ab'' ''x''"
proof -
  have pass: "matching_pass sort_values_stable length_gap [''ab'', ''c''] [''x'', ''yz''] =
     Inr [\<lparr>idx = 0, dist = 0, address_1 = Some ''ab '', address_2 = Some '' yz''\<rparr>,
          \<lparr>idx = 1, dist = 0, address_1 = Some ''c '', address_2 = Some '' x''\<rparr>]"
    by code_simp
  from selected_distance_minimal[OF sort_values_stable_ok pass]
  have "dist \<lparr>idx = 0, dist = 0, address_1 = Some ''ab '', address_2 = Some '' yz''\<rparr>
     \<le> length_gap ''ab'' ''x''"
    by simp
  then show ?thesis using sort_values_stable_ok pass by simp
qed

text \<open>
  C4, as stated, fails: the left sequence \<^verbatim>\<open>["x_and_y"]\<close> and the right sequence \<^verbatim>\<open>["z"]\<close>
  are not empty, but the key splits into three pieces, naming two columns raises on line
  43 and no record is selected.
\<close>

theorem one_record_per_left_value_counterexample:
  "matching_pass sort_values_stable length_gap [''x_and_y''] [''z''] = Inl (LengthMismatch 3 2)"
  by code_simp

text \<open>
  C4, amended.  For a non-empty left sequence and a non-empty right sequence none of whose
  values contains \<^verbatim>\<open>_and_\<close>, the matching pass returns a selection with exactly one row per
  distinct left value: its size is the number of distinct values of the left sequence,
  however often a value occurs there.
\<close>

theorem one_record_per_left_value:
  assumes "sort_values_ok srt" and "L \<noteq> []" and "R \<noteq> []"
    and "no_separator L" and "no_separator R"
  shows "\<exists>fin. matching_pass srt m L R = Inr fin \<and> length fin = card (set L) \<and>
           distinct (map address_1 fin) \<and>
           set (map address_1 fin) = (\<lambda>s. Some (s @ '' '')) ` set L"
proof -
  let ?fin = "dl_dist_fin srt (scored_rows m L R)"
  have pass: "matching_pass srt m L R = Inr ?fin"
    by (rule select_best_table[OF assms(2-5)])
  have keys: "map address_1 ?fin = map Some (selected_keys L R)"
    by (rule fin_keys[OF assms(1) pass])
  have "length (map address_1 ?fin) = card (set L)"
    unfolding keys by (simp add: selected_keys_card)
  moreover have "distinct (map address_1 ?fin)"
    unfolding keys by (simp add: distinct_map selected_keys_card)
  moreover have "set (map address_1 ?fin) = (\<lambda>s. Some (s @ '' '')) ` set L"
    unfolding keys by (simp add: set_selected_keys image_image)
  ultimately show ?thesis using pass by auto
qed

theorem one_record_per_left_value_witness:
  "sort_values_ok sort_values_stable \<and> no_separator [''b'', ''a'', ''b''] \<and>
   no_separator [''xx'', ''y''] \<and>
   (\<exists>fin. matching_pass sort_values_stable length_gap [''b'', ''a'', ''b''] [''xx'', ''y''] = Inr fin \<and>
      length fin = 2)"
proof -
  have a: "no_separator [''b'', ''a'', ''b'']" "no_separator [''xx'', ''y'']"
    by (simp_all add: no_separator_def pat_and_def)
  have "card (set [''b'', ''a'', ''b'']) = 2"
    by code_simp
  then show ?thesis
    using one_record_per_left_value[OF sort_values_stable_ok _ _ a, of length_gap] a
      sort_values_stable_ok
    by auto
qed

text \<open>
  C5, as stated, fails: for the left sequence \<^verbatim>\<open>["b", "a"]\<close> the selected rows come in
  the order \<^verbatim>\<open>a\<close>, \<^verbatim>\<open>b\<close>, not in the order of first occurrence.
\<close>

theorem selection_order_counterexample:
  "matching_pass sort_values_stable length_gap [''b'', ''a''] [''x'', ''yy''] =
     Inr [\<lparr>idx = 0, dist = 0, address_1 = Some ''a '', address_2 = Some '' x''\<rparr>,
          \<lparr>idx = 1, dist = 0, address_1 = Some ''b '', address_2 = Some '' x''\<rparr>]"
  by code_simp

text \<open>
  C5, amended.  Whenever the matching pass returns a selection, its rows are in ascending
  order of the left key (the left value followed by the blank of the dictionary key,
  compared as text) when the right sequence has two or more distinct values; they are in
  the order of the first occurrence of each left value only when the right sequence has
  exactly one distinct value.
\<close>

theorem selection_order:
  assumes "sort_values_ok srt" and "matching_pass srt m L R = Inr fin"
  shows "(2 \<le> card (set R) \<longrightarrow>
            map address_1 fin = map Some (sort (remdups (map (\<lambda>s. s @ '' '') L)))) \<and>
         (card (set R) = 1 \<longrightarrow>
            map address_1 fin = map (\<lambda>s. Some (s @ '' '')) (first_seen L))"
  unfolding fin_keys[OF assms] by (simp add: selected_keys_def comp_def)

theorem selection_order_witness:
  "sort_values_ok sort_values_stable \<and>
   matching_pass sort_values_stable length_gap [''b'', ''a''] [''x'', ''yy''] =
     Inr [\<lparr>idx = 0, dist = 0, address_1 = Some ''a '', address_2 = Some '' x''\<rparr>,
          \<lparr>idx = 1, dist = 0, address_1 = Some ''b '', address_2 = Some '' x''\<rparr>] \<and>
   map address_1 [\<lparr>idx = 0, dist = 0, address_1 = Some ''a '', address_2 = Some '' x''\<rparr>,
          \<lparr>idx = 1, dist = 0, address_1 = Some ''b '', address_2 = Some '' x''\<rparr>] =
     map Some (sort (remdups (map (\<lambda>s. s @ '' '') [''b'', ''a''])))"
proof -
  have pass: "matching_pass sort_values_stable length_gap [''b'', ''a''] [''x'', ''yy''] =
     Inr [\<lparr>idx = 0, dist = 0, address_1 = Some ''a '', address_2 = Some '' x''\<rparr>,
          \<lparr>idx = 1, dist = 0, address_1 = Some ''b '', address_2 = Some '' x''\<rparr>]"
    by code_simp
  have "2 \<le> card (set [''x'', ''yy''])"
    by simp
  then show ?thesis
    using selection_order[OF sort_values_stable_ok pass] sort_values_stable_ok pass
    by blast
qed




end
